theory Spec2Isabelle
  imports Main
begin

section \<open>Sharded pagination (src/modules/shared/pagination.ts)\<close>

text \<open>
  The pagination helpers of the record-serving API: \<open>getPage\<close>, \<open>queryParameters\<close>,
  \<open>getNextPage\<close>, \<open>nextLink\<close> and the \<open>PaginationPage\<close> parameter decorator with its
  \<open>parseOptionalInt\<close>, as listed in chapter 6 of the repository's documentation.
\<close>

subsection \<open>Numbers\<close>

text \<open>
  A TypeScript \<open>number\<close> is an IEEE 754 double. The numbers that reach the pagination
  code are results of \<open>parseInt\<close> (an integer-valued double, an infinity or \<open>NaN\<close>) and
  what \<open>+\<close>, \<open>-\<close> and \<open>*\<close> make of them and of the integer constants, so every finite one
  is an integer. \<open>Number n\<close> is the double of value \<open>n\<close>; negative zero is identified with
  zero (both are falsy, both print as \<open>0\<close>, and they are equal under \<open>===\<close>).
\<close>

datatype number = NaN | Infinity | NegInfinity | Number int

text \<open>The number of binary digits of a positive integer.\<close>

function bitLength :: "int \<Rightarrow> nat" where
  "bitLength n = (if n \<le> 0 then 0 else Suc (bitLength (n div 2)))"
  by pat_completeness auto
termination
  by (relation "measure nat") auto

declare bitLength.simps [simp del]

text \<open>
  Rounding a non-negative integer to the nearest integer with at most 53 significant
  binary digits, ties to the even significand: every integer up to \<open>2^53\<close> is kept; above,
  with \<open>e\<close> the number of digits beyond 53, the result is a multiple of \<open>2^e\<close>.
\<close>

definition roundMagnitude :: "int \<Rightarrow> int" where
  "roundMagnitude n =
     (if n \<le> 2 ^ 53 then n
      else
        let e = bitLength n - 53; q = n div 2 ^ e; r = n mod 2 ^ e; h = 2 ^ (e - 1)
        in (if h < r \<or> (r = h \<and> odd q) then q + 1 else q) * 2 ^ e)"

text \<open>
  The double nearest to an integer: the rounded magnitude with the sign, or an infinity
  when the rounded magnitude reaches \<open>2^1024\<close>.
\<close>

definition toDouble :: "int \<Rightarrow> number" where
  "toDouble x =
     (let m = roundMagnitude \<bar>x\<bar>
      in if 1024 < bitLength m then (if x < 0 then NegInfinity else Infinity)
         else Number (if x < 0 then - m else m))"

text \<open>\<open>Number n\<close> is a double when \<open>n\<close> is its own rounding.\<close>

definition isDouble :: "number \<Rightarrow> bool" where
  "isDouble x = (case x of Number n \<Rightarrow> toDouble n = Number n | _ \<Rightarrow> True)"

text \<open>
  \<open>a + b\<close>, \<open>a - b\<close>, \<open>a * b\<close> and \<open>a > b\<close>: the exact result rounded to a double; \<open>NaN\<close> is
  absorbing, \<open>Infinity - Infinity\<close> and \<open>Infinity * 0\<close> are \<open>NaN\<close>, and every comparison
  with \<open>NaN\<close> is false.
\<close>

fun jsAdd :: "number \<Rightarrow> number \<Rightarrow> number" where
  "jsAdd (Number a) (Number b) = toDouble (a + b)"
| "jsAdd NaN _ = NaN"
| "jsAdd _ NaN = NaN"
| "jsAdd Infinity NegInfinity = NaN"
| "jsAdd NegInfinity Infinity = NaN"
| "jsAdd Infinity _ = Infinity"
| "jsAdd _ Infinity = Infinity"
| "jsAdd NegInfinity _ = NegInfinity"
| "jsAdd _ NegInfinity = NegInfinity"

fun jsNeg :: "number \<Rightarrow> number" where
  "jsNeg (Number a) = Number (- a)"
| "jsNeg Infinity = NegInfinity"
| "jsNeg NegInfinity = Infinity"
| "jsNeg NaN = NaN"

definition jsSub :: "number \<Rightarrow> number \<Rightarrow> number" where
  "jsSub a b = jsAdd a (jsNeg b)"

fun jsSign :: "number \<Rightarrow> int" where
  "jsSign (Number a) = sgn a"
| "jsSign Infinity = 1"
| "jsSign NegInfinity = - 1"
| "jsSign NaN = 0"

fun jsMul :: "number \<Rightarrow> number \<Rightarrow> number" where
  "jsMul (Number a) (Number b) = toDouble (a * b)"
| "jsMul NaN _ = NaN"
| "jsMul _ NaN = NaN"
| "jsMul a b =
     (if jsSign a * jsSign b = 0 then NaN
      else if 0 < jsSign a * jsSign b then Infinity else NegInfinity)"

fun jsGt :: "number \<Rightarrow> number \<Rightarrow> bool" where
  "jsGt (Number a) (Number b) = (b < a)"
| "jsGt NaN _ = False"
| "jsGt _ NaN = False"
| "jsGt Infinity Infinity = False"
| "jsGt Infinity _ = True"
| "jsGt _ Infinity = False"
| "jsGt NegInfinity _ = False"
| "jsGt _ NegInfinity = True"

text \<open>A number in a condition: \<open>NaN\<close> and zero are falsy, every other number is truthy.\<close>

definition truthy :: "number \<Rightarrow> bool" where
  "truthy x = (x \<noteq> NaN \<and> x \<noteq> Number 0)"

subsection \<open>Constants\<close>

definition FIRST_PAGE :: int where
  "FIRST_PAGE = 1"

definition PAGE_SIZE :: int where
  "PAGE_SIZE = 10"

definition DEFAULT_SHARD :: int where
  "DEFAULT_SHARD = 0"

definition PAGE_QUERY_PARAM :: string where
  "PAGE_QUERY_PARAM = ''page''"

definition SHARD_QUERY_PARAM :: string where
  "SHARD_QUERY_PARAM = ''shard''"

text \<open>
  \<open>MAX_SHARDS\<close> is imported from \<open>constants.ts\<close>, which is not part of the listed
  sources (the documentation mentions 10 and 63 as example values). Every function that
  reads it takes it as the argument \<open>MAX_SHARDS\<close>.
\<close>

subsection \<open>Pages\<close>

text \<open>\<open>Page = { num: number; size: number; shard?: number }\<close>; an absent shard is \<open>None\<close>.\<close>

record Page =
  num :: number
  size' :: number
  shard :: "number option"

text \<open>
  \<open>pageNum ? pageNum : FIRST_PAGE\<close>: an absent, \<open>NaN\<close> or zero page number is replaced, every
  other number (an infinity included) is kept.
\<close>

definition getPage :: "number option \<Rightarrow> number option \<Rightarrow> Page" where
  "getPage pageNum shardNum =
     \<lparr> num = (case pageNum of
                Some n \<Rightarrow> (if truthy n then n else Number FIRST_PAGE)
              | None \<Rightarrow> Number FIRST_PAGE),
       size' = Number PAGE_SIZE,
       shard = shardNum \<rparr>"

subsection \<open>Query parameters\<close>

text \<open>The result \<open>{ skip, take, where: { shard } }\<close> of \<open>queryParameters\<close>.\<close>

record QueryParameters =
  take' :: number
  skip :: number
  where_shard :: number

text \<open>\<open>page.shard ?? DEFAULT_SHARD\<close> replaces only \<open>undefined\<close>.\<close>

definition queryParameters :: "Page \<Rightarrow> QueryParameters" where
  "queryParameters page =
     \<lparr> take' = size' page,
       skip = jsMul (jsSub (num page) (Number 1)) (size' page),
       where_shard = (case shard page of Some s \<Rightarrow> s | None \<Rightarrow> Number DEFAULT_SHARD) \<rparr>"

subsection \<open>Next page\<close>

text \<open>
  \<open>CountableCollection\<close> is the capability \<open>getNextPage\<close> is given (a Prisma delegate such
  as \<open>prisma.shift\<close>): all the code uses is its \<open>count\<close>, a number of records. The two
  awaited calls run one after the other against the same collection; a rejected promise
  is outside the model.
\<close>

record CountableCollection =
  count :: "QueryParameters \<Rightarrow> int"

definition countOnPage :: "Page \<Rightarrow> CountableCollection \<Rightarrow> int" where
  "countOnPage page collection = count collection (queryParameters page)"

definition getNextPage :: "Page \<Rightarrow> CountableCollection \<Rightarrow> int \<Rightarrow> Page option" where
  "getNextPage currentPage collection MAX_SHARDS =
     (let nextPageNumInCurrentShard = jsAdd (num currentPage) (Number 1);
          potentialNextPageInShard =
            getPage (Some nextPageNumInCurrentShard) (shard currentPage)
      in if countOnPage potentialNextPageInShard collection > 0
         then Some potentialNextPageInShard
         else
           let nextShardNum =
                 jsAdd (case shard currentPage of Some s \<Rightarrow> s | None \<Rightarrow> Number DEFAULT_SHARD)
                       (Number 1)
           in if jsGt nextShardNum (Number MAX_SHARDS)
              then None
              else
                let potentialPageInNextShard =
                      getPage (Some (Number FIRST_PAGE)) (Some nextShardNum)
                in if countOnPage potentialPageInNextShard collection > 0
                   then Some potentialPageInNextShard
                   else None)"

subsection \<open>Numbers as strings\<close>

text \<open>
  Strings are lists of code units below 256. The decimal digits of a non-negative
  integer:
\<close>

definition digitChar :: "int \<Rightarrow> char" where
  "digitChar d = char_of (48 + d)"

function showDigits :: "int \<Rightarrow> string" where
  "showDigits n =
     (if n < 10 then [digitChar n] else showDigits (n div 10) @ [digitChar (n mod 10)])"
  by pat_completeness auto
termination
  by (relation "measure nat") auto

declare showDigits.simps [simp del]

text \<open>
  A template literal \<open>`${x}`\<close> applies \<open>Number::toString\<close>. For a finite \<open>x\<close> it takes the
  decimal number with the fewest significant digits that still rounds to \<open>x\<close> (the one
  nearest to \<open>x\<close>, with the even last digit in a tie) and writes its digits in full when
  it is below \<open>10^21\<close>, and in exponent form (\<open>1e+21\<close>, \<open>1.5e+300\<close>) otherwise. For an
  integer up to \<open>2^53\<close> that is the integer itself.

  \<open>candidate n p\<close> is the multiple of the power of ten \<open>p\<close> next to \<open>n\<close> that rounds to \<open>n\<close>,
  if there is one; \<open>shortest\<close> tries the powers of ten from the largest down.
\<close>

definition candidate :: "int \<Rightarrow> int \<Rightarrow> int option" where
  "candidate n p =
     (let lo = n div p * p; hi = lo + p;
          vlo = (roundMagnitude lo = n); vhi = (roundMagnitude hi = n)
      in if vlo \<and> vhi
         then Some (if n - lo < hi - n then lo
                    else if hi - n < n - lo then hi
                    else if even (n div p) then lo else hi)
         else if vlo then Some lo
         else if vhi then Some hi
         else None)"

fun shortest :: "int \<Rightarrow> int list \<Rightarrow> int" where
  "shortest n [] = n"
| "shortest n (p # ps) = (case candidate n p of Some c \<Rightarrow> c | None \<Rightarrow> shortest n ps)"

definition powersOfTen :: "nat \<Rightarrow> int list" where
  "powersOfTen d = map (\<lambda>j. 10 ^ j) (rev [0..<d])"

text \<open>
  The exponent form of a digit string: its first digit, the other digits up to the last
  one that is not zero after a point, and the number of digits after the first as the
  exponent.
\<close>

definition exponentForm :: "string \<Rightarrow> string" where
  "exponentForm ds =
     (case rev (dropWhile (\<lambda>c. c = CHR ''0'') (rev ds)) of
        [] \<Rightarrow> ds
      | x # xs \<Rightarrow>
          x # (if xs = [] then [] else CHR ''.'' # xs)
            @ ''e+'' @ showDigits (int (length ds) - 1))"

definition showMagnitude :: "int \<Rightarrow> string" where
  "showMagnitude n =
     (if n \<le> 2 ^ 53 then showDigits n
      else
        let c = shortest n (powersOfTen (length (showDigits n)))
        in if c < 10 ^ 21 then showDigits c else exponentForm (showDigits c))"

fun showNumber :: "number \<Rightarrow> string" where
  "showNumber NaN = ''NaN''"
| "showNumber Infinity = ''Infinity''"
| "showNumber NegInfinity = ''-Infinity''"
| "showNumber (Number i) =
     (if i < 0 then CHR ''-'' # showMagnitude (- i) else showMagnitude i)"

text \<open>
  \<open>parseInt(s, 10)\<close>: leading white space is skipped, one sign is read, then the longest
  run of decimal digits; with no digit the result is \<open>NaN\<close>, otherwise the double nearest
  to the value of the digits, and whatever follows the digits is ignored. The white
  space below 256 is tab, line feed, vertical tab, form feed, carriage return, space
  and no-break space.
\<close>

definition isWhiteSpace :: "char \<Rightarrow> bool" where
  "isWhiteSpace c =
     (c \<in> set [CHR 0x09, CHR 0x0A, CHR 0x0B, CHR 0x0C, CHR 0x0D, CHR 0x20, CHR 0xA0])"

definition isDigit :: "char \<Rightarrow> bool" where
  "isDigit c = (48 \<le> (of_char c :: int) \<and> (of_char c :: int) \<le> 57)"

definition digitValue :: "char \<Rightarrow> int" where
  "digitValue c = of_char c - 48"

definition digitsValue :: "string \<Rightarrow> int" where
  "digitsValue ds = foldl (\<lambda>a c. 10 * a + digitValue c) 0 ds"

definition parseInt :: "string \<Rightarrow> number" where
  "parseInt s =
     (let s1 = dropWhile isWhiteSpace s;
          signv = (case s1 of c # r \<Rightarrow> (if c = CHR ''-'' then - 1 else 1) | [] \<Rightarrow> (1::int));
          s2 = (case s1 of c # r \<Rightarrow> (if c = CHR ''+'' \<or> c = CHR ''-'' then r else s1) | [] \<Rightarrow> s1);
          z = takeWhile isDigit s2
      in if z = [] then NaN else toDouble (signv * digitsValue z))"

text \<open>\<open>value ? parseInt(value, 10) : undefined\<close>: an absent or empty string is falsy.\<close>

definition parseOptionalInt :: "string option \<Rightarrow> number option" where
  "parseOptionalInt val =
     (case val of None \<Rightarrow> None | Some s \<Rightarrow> (if s \<noteq> [] then Some (parseInt s) else None))"

subsection \<open>Next link\<close>

text \<open>
  \<open>nextLink({ nextPage, request })\<close>. The helper \<open>urlWithoutQueryParameters(request)\<close> is
  not part of the listed sources; its result is the argument \<open>base\<close>.
\<close>

definition nextLink :: "Page option \<Rightarrow> string \<Rightarrow> string option" where
  "nextLink nextPage base =
     (case nextPage of
        None \<Rightarrow> None
      | Some p \<Rightarrow>
          (let query = PAGE_QUERY_PARAM @ ''='' @ showNumber (num p);
               query' = (case shard p of
                           Some s \<Rightarrow> query @ ''&'' @ SHARD_QUERY_PARAM @ ''='' @ showNumber s
                         | None \<Rightarrow> query)
           in Some (base @ ''?'' @ query')))"

subsection \<open>Reading the page of a request\<close>

text \<open>
  Modelled from the spec: the request layer that hands the \<open>page\<close> and \<open>shard\<close> query
  parameters of a URL to the decorator as \<open>request.query\<close> is an external collaborator,
  not part of the listed sources. The query is what follows the first \<open>?\<close> of the URL,
  its parameters are separated by \<open>&\<close>, and each is a key and a value separated by the
  first \<open>=\<close>; a key that does not occur is \<open>undefined\<close>. Percent-encoding and the
  reading of \<open>+\<close> as a space are not modelled: the links of \<open>nextLink\<close> have no percent
  sign, and a \<open>+\<close> only in the exponent of a number from \<open>1e21\<close>, after the digits that
  \<open>parseInt\<close> reads.
\<close>

fun splitOn :: "char \<Rightarrow> string \<Rightarrow> string list" where
  "splitOn c [] = [[]]"
| "splitOn c (x # xs) =
     (if x = c then [] # splitOn c xs
      else (case splitOn c xs of w # ws \<Rightarrow> (x # w) # ws | [] \<Rightarrow> [[x]]))"

definition keyValue :: "string \<Rightarrow> string \<times> string" where
  "keyValue s = (takeWhile (\<lambda>c. c \<noteq> CHR ''='') s, drop 1 (dropWhile (\<lambda>c. c \<noteq> CHR ''='') s))"

definition queryString :: "string \<Rightarrow> string" where
  "queryString url = drop 1 (dropWhile (\<lambda>c. c \<noteq> CHR ''?'') url)"

definition requestQuery :: "string \<Rightarrow> string \<Rightarrow> string option" where
  "requestQuery url key = map_of (map keyValue (splitOn CHR ''&'' (queryString url))) key"

text \<open>The decorator \<open>PaginationPage\<close>, applied to the URL of the request.\<close>

definition PaginationPage :: "string \<Rightarrow> Page" where
  "PaginationPage url =
     getPage (parseOptionalInt (requestQuery url PAGE_QUERY_PARAM))
             (parseOptionalInt (requestQuery url SHARD_QUERY_PARAM))"

subsection \<open>A stored collection\<close>

text \<open>
  Modelled from the spec: the persistence layer behind \<open>CountableCollection\<close> (Prisma's
  \<open>findMany\<close> and \<open>count\<close>) is not part of the listed sources. A table is the ordered
  list of its records, each with the shard it lives in; \<open>fetch(offset, limit,
  shardFilter)\<close> is the slice of the records of that shard starting at the offset, and
  the count for a page is the number of records in that slice. An offset or limit below
  zero is read as zero; with an offset or limit that is not finite there is no record.
\<close>

definition findMany :: "(int \<times> 'a) list \<Rightarrow> QueryParameters \<Rightarrow> (int \<times> 'a) list" where
  "findMany rows q =
     (case skip q of
        Number k \<Rightarrow>
          (case take' q of
             Number t \<Rightarrow>
               take (nat t) (drop (nat k) (filter (\<lambda>r. Number (fst r) = where_shard q) rows))
           | _ \<Rightarrow> [])
      | _ \<Rightarrow> [])"

definition tableCollection :: "(int \<times> 'a) list \<Rightarrow> CountableCollection" where
  "tableCollection rows = \<lparr> count = (\<lambda>q. int (length (findMany rows q))) \<rparr>"

text \<open>\<open>items s n\<close>: \<open>n\<close> records in shard \<open>s\<close>.\<close>

definition items :: "int \<Rightarrow> nat \<Rightarrow> (int \<times> nat) list" where
  "items s n = map (\<lambda>i. (s, i)) [0..<n]"

text \<open>Scenario A: twenty-five records, all in shard 0.\<close>

definition scenarioA :: "(int \<times> nat) list" where
  "scenarioA = items 0 25"

text \<open>Scenario B: five records in shard 0 and five in shard 1.\<close>

definition scenarioB :: "(int \<times> nat) list" where
  "scenarioB = items 0 5 @ items 1 5"

text \<open>Scenario C: five records in shard 0, none in shard 1, five in shard 2.\<close>

definition scenarioC :: "(int \<times> nat) list" where
  "scenarioC = items 0 5 @ items 1 0 @ items 2 5"

text \<open>
  A collection that answers every count with one record: what the capability reports
  of a store that still has a record at the offset it is asked about.
\<close>

definition everyPageHasRecords :: CountableCollection where
  "everyPageHasRecords = \<lparr> count = (\<lambda>q. 1) \<rparr>"

definition shiftsUrl :: string where
  "shiftsUrl = ''http://localhost:3000/shifts''"

subsection \<open>The paginated response\<close>

text \<open>
  Modelled from the spec: the service method \<open>findAllPaginated(page)\<close> is described in
  chapter 6 (steps 5 to 9 of the journey of a request) but its code is not part of the
  listed sources. It fetches the page with \<open>findMany(queryParameters({ page }))\<close>,
  resolves the next page with \<open>getNextPage\<close> and renders it with \<open>nextLink\<close>; the response
  is \<open>{ data, links: { next } }\<close>.
\<close>

record 'a PaginatedResponse =
  data :: "'a list"
  links_next :: "string option"

definition findAllPaginated ::
  "Page \<Rightarrow> (int \<times> 'a) list \<Rightarrow> int \<Rightarrow> string \<Rightarrow> (int \<times> 'a) PaginatedResponse" where
  "findAllPaginated page rows MAX_SHARDS base =
     \<lparr> data = findMany rows (queryParameters page),
       links_next = nextLink (getNextPage page (tableCollection rows) MAX_SHARDS) base \<rparr>"

subsection \<open>The next-page algorithm as the specification words it\<close>





subsection \<open>Ranges of numbers\<close>

text \<open>A number that is at least 1.\<close>

definition atLeastOne :: "number \<Rightarrow> bool" where
  "atLeastOne x = (case x of Number n \<Rightarrow> 1 \<le> n | Infinity \<Rightarrow> True | _ \<Rightarrow> False)"

text \<open>A shard that is absent, or an integer in \<open>[0, MAX_SHARDS]\<close>.\<close>

definition shardInRange :: "int \<Rightarrow> number option \<Rightarrow> bool" where
  "shardInRange MAX_SHARDS sh =
     (case sh of
        None \<Rightarrow> True
      | Some (Number s) \<Rightarrow> 0 \<le> s \<and> s \<le> MAX_SHARDS
      | Some _ \<Rightarrow> False)"

text \<open>
  A number that \<open>parseInt\<close> reads back from its string: \<open>NaN\<close>, or a finite double below
  \<open>10^21\<close> in magnitude (one that is written with all its digits).
\<close>

definition readsBack :: "number \<Rightarrow> bool" where
  "readsBack x =
     (case x of
        NaN \<Rightarrow> True
      | Number n \<Rightarrow> toDouble n = Number n \<and> \<bar>n\<bar> < 10 ^ 21
      | _ \<Rightarrow> False)"

text \<open>A character that does not delimit a query or one of its parameters.\<close>

definition numberChar :: "char \<Rightarrow> bool" where
  "numberChar c = (c \<noteq> CHR ''&'' \<and> c \<noteq> CHR ''='' \<and> c \<noteq> CHR ''?'')"

section \<open>Properties\<close>

subsection \<open>Rounding\<close>

lemma bitLength_upper: "n < 2 ^ bitLength n"
proof (induction n rule: bitLength.induct)
  case (1 n)
  show ?case
  proof (cases "n \<le> 0")
    case True
    then show ?thesis by (simp add: bitLength.simps [of n])
  next
    case False
    with 1 have "n div 2 < 2 ^ bitLength (n div 2)" by simp
    then have "n < 2 * 2 ^ bitLength (n div 2)" by linarith
    with False show ?thesis by (simp add: bitLength.simps [of n])
  qed
qed

lemma bitLength_lower: "0 < n \<Longrightarrow> 2 ^ (bitLength n - 1) \<le> n"
proof (induction n rule: bitLength.induct)
  case (1 n)
  then have n: "\<not> n \<le> 0" by simp
  show ?case
  proof (cases "n div 2 \<le> 0")
    case True
    then have "bitLength (n div 2) = 0"
      by (simp add: bitLength.simps [of "n div 2"])
    then have "bitLength n = 1"
      using n by (simp add: bitLength.simps [of n])
    with 1(2) show ?thesis by simp
  next
    case False
    then have pos: "0 < n div 2" by simp
    from 1(1) [OF n pos] have ih: "2 ^ (bitLength (n div 2) - 1) \<le> n div 2" .
    have b: "bitLength (n div 2) \<noteq> 0"
      using False by (simp add: bitLength.simps [of "n div 2"])
    then have "(2::int) ^ bitLength (n div 2) = 2 * 2 ^ (bitLength (n div 2) - 1)"
      by (cases "bitLength (n div 2)") simp_all
    also have "\<dots> \<le> 2 * (n div 2)" using ih by simp
    also have "\<dots> \<le> n" by linarith
    finally show ?thesis using n by (simp add: bitLength.simps [of n])
  qed
qed

lemma bitLength_le: "n < 2 ^ k \<Longrightarrow> bitLength n \<le> k"
proof (rule ccontr)
  assume lt: "n < 2 ^ k" and "\<not> bitLength n \<le> k"
  then have k: "k \<le> bitLength n - 1" and pos: "0 < n"
    by (auto simp: bitLength.simps [of n] split: if_splits)
  have "(2::int) ^ k \<le> 2 ^ (bitLength n - 1)"
    using k by (simp add: power_increasing)
  also have "\<dots> \<le> n" by (rule bitLength_lower [OF pos])
  finally show False using lt by simp
qed

lemma bitLength_gt: 
  assumes "2 ^ k \<le> n"
  shows "k < bitLength n"
proof -
  have "(2::int) ^ k < 2 ^ bitLength n"
    using assms bitLength_upper [of n] by (rule order.strict_trans1)
  then show ?thesis
    using power_strict_increasing_iff [of "2::int" k "bitLength n"] by simp
qed

lemma bitLength_mono: "m \<le> n \<Longrightarrow> bitLength m \<le> bitLength n"
  by (rule bitLength_le) (use bitLength_upper [of n] in linarith)

lemma mult_le_div: 
  assumes "0 < d" and "c * d \<le> (n::int)"
  shows "c \<le> n div d"
  using zdiv_mono1 [OF assms(2,1)] assms(1) by simp

lemma roundMagnitude_small: "n \<le> 2 ^ 53 \<Longrightarrow> roundMagnitude n = n"
  by (simp add: roundMagnitude_def)

lemma rounded_bounds:
  assumes big: "2 ^ 53 < n"
  defines "e \<equiv> bitLength n - 53"
  defines "lo \<equiv> n div 2 ^ e * 2 ^ e"
  shows "1 \<le> e" and "bitLength n = e + 53" and "2 ^ (e + 52) \<le> lo" and "lo \<le> n"
    and "n < lo + 2 ^ e" and "roundMagnitude n = lo \<or> roundMagnitude n = lo + 2 ^ e"
    and "n mod 2 ^ e = 0 \<Longrightarrow> roundMagnitude n = n"
proof -
  have d: "(0::int) < 2 ^ e" by simp
  have "2 ^ 53 \<le> n" using big by simp
  then have b: "53 < bitLength n" by (rule bitLength_gt)
  then show e1: "1 \<le> e" and bl: "bitLength n = e + 53" by (simp_all add: e_def)
  have pos: "0 < n" using big by (rule order.strict_trans [rotated]) simp
  have "2 ^ (bitLength n - 1) \<le> n" by (rule bitLength_lower [OF pos])
  then have "(2::int) ^ 52 * 2 ^ e \<le> n"
    using bl by (simp add: power_add mult.commute)
  then have "(2::int) ^ 52 \<le> n div 2 ^ e" by (rule mult_le_div [OF d])
  then have "(2::int) ^ 52 * 2 ^ e \<le> n div 2 ^ e * 2 ^ e"
    by (rule mult_right_mono) simp
  then show "2 ^ (e + 52) \<le> lo" by (simp add: lo_def power_add mult.commute)
  show "lo \<le> n"
    unfolding lo_def using div_mult_mod_eq [of n "2 ^ e"] pos_mod_sign [OF d, of n] by linarith
  show "n < lo + 2 ^ e"
    unfolding lo_def using div_mult_mod_eq [of n "2 ^ e"] pos_mod_bound [OF d, of n] by linarith
  show "roundMagnitude n = lo \<or> roundMagnitude n = lo + 2 ^ e"
    using big by (simp add: roundMagnitude_def Let_def algebra_simps e_def lo_def)
  show "roundMagnitude n = n" if "n mod 2 ^ e = 0"
  proof -
    have h: "(0::int) < 2 ^ (e - 1)" by simp
    have "n div 2 ^ e * 2 ^ e = n"
      using div_mult_mod_eq [of n "2 ^ e"] that by simp
    then show ?thesis
      using big that h by (simp add: roundMagnitude_def Let_def e_def)
  qed
qed

lemma roundMagnitude_dvd:
  assumes "2 ^ 53 < k" and "roundMagnitude k = k"
  shows "2 ^ (bitLength k - 53) dvd k"
  using rounded_bounds(6) [OF assms(1)] assms(2)
  by (metis dvd_triv_right dvd_add_triv_right_iff dvd_add_right_iff)

lemma roundMagnitude_ge:
  assumes rep: "roundMagnitude k = k" and le: "k \<le> x"
  shows "k \<le> roundMagnitude x"
proof (cases "x \<le> 2 ^ 53")
  case True
  then show ?thesis using le by (simp add: roundMagnitude_small)
next
  case False
  then have big: "2 ^ 53 < x" by simp
  define e where "e = bitLength x - 53"
  define lo where "lo = x div 2 ^ e * 2 ^ e"
  note rb = rounded_bounds [OF big, folded e_def lo_def]
  have d: "(0::int) < 2 ^ e" by simp
  have "k \<le> lo"
  proof (cases "k \<le> 2 ^ 53")
    case True
    have "(2::int) ^ 53 \<le> 2 ^ (e + 52)"
      using rb(1) by (intro power_increasing) simp_all
    then show ?thesis using True rb(3) by linarith
  next
    case False
    then have kbig: "2 ^ 53 < k" by simp
    note kb = rounded_bounds [OF kbig]
    have dv: "2 ^ (bitLength k - 53) dvd k" by (rule roundMagnitude_dvd [OF kbig rep])
    have m: "bitLength k \<le> bitLength x" by (rule bitLength_mono [OF le])
    show ?thesis
    proof (cases "bitLength k = bitLength x")
      case True
      then have "2 ^ e dvd k" using dv by (simp add: e_def)
      then obtain c where c: "k = c * 2 ^ e" by (auto simp: dvd_def mult.commute)
      then have "c \<le> x div 2 ^ e" using le by (intro mult_le_div [OF d]) simp
      then have "c * 2 ^ e \<le> x div 2 ^ e * 2 ^ e" by (rule mult_right_mono) simp
      then show ?thesis by (simp add: c lo_def)
    next
      case False
      then have "bitLength k \<le> e + 52" using m rb(2) by simp
      then have "(2::int) ^ bitLength k \<le> 2 ^ (e + 52)"
        by (intro power_increasing) simp_all
      then show ?thesis using bitLength_upper [of k] rb(3) by linarith
    qed
  qed
  moreover have "lo \<le> roundMagnitude x" using rb(6) d by auto
  ultimately show ?thesis by simp
qed

lemma roundMagnitude_le:
  assumes rep: "roundMagnitude k = k" and le: "x \<le> k"
  shows "roundMagnitude x \<le> k"
proof (cases "x \<le> 2 ^ 53")
  case True
  then show ?thesis using le by (simp add: roundMagnitude_small)
next
  case False
  then have big: "2 ^ 53 < x" by simp
  then have kbig: "2 ^ 53 < k" using le by simp
  define e where "e = bitLength x - 53"
  define lo where "lo = x div 2 ^ e * 2 ^ e"
  note rb = rounded_bounds [OF big, folded e_def lo_def]
  have d: "(0::int) < 2 ^ e" by simp
  have m: "e \<le> bitLength k - 53" using bitLength_mono [OF le] by (simp add: e_def)
  have "(2::int) ^ e dvd 2 ^ (bitLength k - 53)" by (rule le_imp_power_dvd [OF m])
  then have "2 ^ e dvd k" using roundMagnitude_dvd [OF kbig rep] by (rule dvd_trans)
  then obtain c where c: "k = c * 2 ^ e" by (auto simp: dvd_def mult.commute)
  show ?thesis
  proof (cases "x mod 2 ^ e = 0")
    case True
    then have "roundMagnitude x = x" by (rule rb(7))
    then show ?thesis using le by simp
  next
    case False
    then have "0 < x mod 2 ^ e" using pos_mod_sign [OF d, of x] by linarith
    then have "lo < x" unfolding lo_def using div_mult_mod_eq [of x "2 ^ e"] by linarith
    then have "x div 2 ^ e * 2 ^ e < c * 2 ^ e" using le unfolding c lo_def by linarith
    then have "x div 2 ^ e < c" using d by (simp add: mult_less_cancel_right)
    then have "x div 2 ^ e + 1 \<le> c" by simp
    then have "(x div 2 ^ e + 1) * 2 ^ e \<le> c * 2 ^ e" by (rule mult_right_mono) simp
    then have hi: "lo + 2 ^ e \<le> k" by (simp add: c lo_def algebra_simps)
    from rb(6) show ?thesis
    proof
      assume "roundMagnitude x = lo"
      then show ?thesis using hi d by linarith
    next
      assume "roundMagnitude x = lo + 2 ^ e"
      then show ?thesis using hi by linarith
    qed
  qed
qed

lemma toDouble_exact: "\<bar>x\<bar> \<le> 2 ^ 53 \<Longrightarrow> toDouble x = Number x"
proof -
  assume a: "\<bar>x\<bar> \<le> 2 ^ 53"
  then have "\<bar>x\<bar> < 2 ^ 54" by simp
  then have "bitLength \<bar>x\<bar> \<le> 54" by (rule bitLength_le)
  then show ?thesis using a by (auto simp: toDouble_def roundMagnitude_small Let_def)
qed

lemma toDouble_Number_iff:
  "toDouble k = Number k \<longleftrightarrow>
     roundMagnitude \<bar>k\<bar> = \<bar>k\<bar> \<and> bitLength (roundMagnitude \<bar>k\<bar>) \<le> 1024"
  by (auto simp: toDouble_def Let_def split: if_splits)

lemma toDouble_mono:
  assumes rep: "toDouble k = Number k" and le: "k \<le> x"
  shows "toDouble x = Infinity \<or> (\<exists>m. toDouble x = Number m \<and> k \<le> m)"
proof (cases "x < 0")
  case True
  note rb = rep [unfolded toDouble_Number_iff]
  have r: "roundMagnitude \<bar>k\<bar> = \<bar>k\<bar>" using rb by (rule conjunct1)
  have b: "bitLength \<bar>k\<bar> \<le> 1024" using rb by auto
  have "\<bar>x\<bar> \<le> \<bar>k\<bar>" using True le by simp
  then have m: "roundMagnitude \<bar>x\<bar> \<le> \<bar>k\<bar>" by (rule roundMagnitude_le [OF r])
  then have "bitLength (roundMagnitude \<bar>x\<bar>) \<le> 1024"
    using bitLength_mono [OF m] b by simp
  then have "toDouble x = Number (- roundMagnitude \<bar>x\<bar>)"
    using True by (simp add: toDouble_def)
  moreover have "k \<le> - roundMagnitude \<bar>x\<bar>" using m True le by simp
  ultimately show ?thesis by simp
next
  case False
  have z: "roundMagnitude 0 = 0" by (simp add: roundMagnitude_small)
  have nn: "0 \<le> roundMagnitude \<bar>x\<bar>" by (rule roundMagnitude_ge [OF z]) simp
  have "k \<le> roundMagnitude \<bar>x\<bar>"
  proof (cases "k \<le> 0")
    case True
    then show ?thesis using nn by simp
  next
    case False
    have r: "roundMagnitude \<bar>k\<bar> = \<bar>k\<bar>"
      using rep [unfolded toDouble_Number_iff] by (rule conjunct1)
    have "\<bar>k\<bar> \<le> \<bar>x\<bar>" using False le by simp
    then have "\<bar>k\<bar> \<le> roundMagnitude \<bar>x\<bar>" by (rule roundMagnitude_ge [OF r])
    then show ?thesis by simp
  qed
  then show ?thesis using False by (simp add: toDouble_def Let_def)
qed
subsection \<open>Arithmetic on safe integers\<close>

lemma toDouble_zero: "toDouble 0 = Number 0"
  by (rule toDouble_exact) simp

lemma toDouble_one: "toDouble 1 = Number 1"
  by (rule toDouble_exact) simp

lemma jsAdd_one_exact: "\<bar>n + 1\<bar> \<le> 2 ^ 53 \<Longrightarrow> jsAdd (Number n) (Number 1) = Number (n + 1)"
  by (simp add: toDouble_exact)

lemma jsSub_one_exact: "\<bar>n - 1\<bar> \<le> 2 ^ 53 \<Longrightarrow> jsSub (Number n) (Number 1) = Number (n - 1)"
  by (simp add: jsSub_def toDouble_exact)

lemma jsMul_exact: "\<bar>a * b\<bar> \<le> 2 ^ 53 \<Longrightarrow> jsMul (Number a) (Number b) = Number (a * b)"
  by (simp add: toDouble_exact)

lemma jsAdd_one_mono:
  assumes "toDouble k = Number k" and "k \<le> n + 1"
  shows "jsAdd (Number n) (Number 1) = Infinity
       \<or> (\<exists>m. jsAdd (Number n) (Number 1) = Number m \<and> k \<le> m)"
  using toDouble_mono [OF assms] by simp

lemma truthy_num_getPage: "truthy (num (getPage pageNum shardNum))"
  by (cases pageNum) (simp_all add: getPage_def truthy_def FIRST_PAGE_def)

lemma getPage_again:
  "getPage (Some (num (getPage pageNum shardNum))) (shard (getPage pageNum shardNum))
     = getPage pageNum shardNum"
  using truthy_num_getPage [of pageNum shardNum] by (simp add: getPage_def)

subsection \<open>The stored collection\<close>

lemma items_shard: "r \<in> set (items s n) \<Longrightarrow> fst r = s"
  by (auto simp: items_def)

lemma scenarioB_shards: "\<forall>r \<in> set scenarioB. fst r \<le> 1"
  by (auto simp: scenarioB_def dest: items_shard)

lemma findMany_foreign_shard:
  assumes "\<forall>r \<in> set rows. fst r \<le> MAX_SHARDS" and "jsGt (where_shard q) (Number MAX_SHARDS)"
  shows "findMany rows q = []"
proof -
  have "filter (\<lambda>r. Number (fst r) = where_shard q) rows = []"
    using assms by (cases "where_shard q") (auto simp: filter_empty_conv)
  then show ?thesis by (simp add: findMany_def split: number.splits)
qed

lemma shiftsUrl_no_query: "CHR ''?'' \<notin> set shiftsUrl"
  by (simp add: shiftsUrl_def)

subsection \<open>Writing and reading numbers\<close>

lemma digitChar_isDigit: "0 \<le> d \<Longrightarrow> d < 10 \<Longrightarrow> isDigit (digitChar d)"
  by (simp add: isDigit_def digitChar_def)

lemma digitChar_value: "0 \<le> d \<Longrightarrow> d < 10 \<Longrightarrow> digitValue (digitChar d) = d"
  by (simp add: digitValue_def digitChar_def)

lemma showDigits_digits: "0 \<le> n \<Longrightarrow> \<forall>c \<in> set (showDigits n). isDigit c"
proof (induction n rule: showDigits.induct)
  case (1 n)
  show ?case
  proof (cases "n < 10")
    case True
    then show ?thesis using 1(2) by (simp add: showDigits.simps [of n] digitChar_isDigit)
  next
    case False
    then have "0 \<le> n div 10" by simp
    with 1(1) [OF False] have "\<forall>c \<in> set (showDigits (n div 10)). isDigit c" by simp
    then show ?thesis using False by (simp add: showDigits.simps [of n] digitChar_isDigit)
  qed
qed

lemma showDigits_nonempty: "showDigits n \<noteq> []"
  by (subst showDigits.simps) simp

lemma digitsValue_snoc: "digitsValue (ds @ [c]) = 10 * digitsValue ds + digitValue c"
  by (simp add: digitsValue_def)

lemma digitsValue_showDigits: "0 \<le> n \<Longrightarrow> digitsValue (showDigits n) = n"
proof (induction n rule: showDigits.induct)
  case (1 n)
  show ?case
  proof (cases "n < 10")
    case True
    then show ?thesis
      using 1(2) by (simp add: showDigits.simps [of n] digitsValue_def digitChar_value)
  next
    case False
    then have "0 \<le> n div 10" by simp
    with 1(1) [OF False] have "digitsValue (showDigits (n div 10)) = n div 10" by simp
    then show ?thesis
      using False by (simp add: showDigits.simps [of n] digitsValue_snoc digitChar_value)
  qed
qed

lemma isDigit_not_special:
  "isDigit c \<Longrightarrow> \<not> isWhiteSpace c \<and> c \<noteq> CHR ''-'' \<and> c \<noteq> CHR ''+'' \<and> numberChar c"
  by (auto simp: isDigit_def isWhiteSpace_def numberChar_def)

lemma showDigits_chars: "0 \<le> n \<Longrightarrow> c \<in> set (showDigits n) \<Longrightarrow> numberChar c"
  using showDigits_digits isDigit_not_special by blast

lemma exponentForm_chars:
  assumes "\<forall>c \<in> set ds. numberChar c"
  shows "\<forall>c \<in> set (exponentForm ds). numberChar c"
proof (cases "rev (dropWhile (\<lambda>c. c = CHR ''0'') (rev ds))")
  case Nil
  have "exponentForm ds = ds" by (simp only: exponentForm_def Nil list.case)
  then show ?thesis using assms by simp
next
  case (Cons x xs)
  have sub: "set (rev (dropWhile (\<lambda>c. c = CHR ''0'') (rev ds))) \<subseteq> set ds"
    using set_dropWhileD [of _ "\<lambda>c. c = CHR ''0''" "rev ds"] by auto
  then have xs: "\<forall>c \<in> set (x # xs). numberChar c"
    using assms Cons by auto
  have "ds \<noteq> []" using Cons by auto
  then have "0 \<le> int (length ds) - 1" by (cases ds) simp_all
  then have "\<forall>c \<in> set (showDigits (int (length ds) - 1)). numberChar c"
    using showDigits_chars by blast
  moreover have "exponentForm ds =
      x # (if xs = [] then [] else CHR ''.'' # xs) @ ''e+'' @ showDigits (int (length ds) - 1)"
    by (simp only: exponentForm_def Cons list.case)
  ultimately show ?thesis
    using xs by (auto simp: numberChar_def)
qed

lemma candidate_rounds: "candidate n p = Some c \<Longrightarrow> roundMagnitude c = n"
  by (auto simp: candidate_def Let_def split: if_splits)

lemma candidate_nonneg: "0 \<le> n \<Longrightarrow> 0 < p \<Longrightarrow> candidate n p = Some c \<Longrightarrow> 0 \<le> c"
proof -
  assume n: "0 \<le> n" and p: "0 < p" and c: "candidate n p = Some c"
  have "0 \<le> n div p" using n p by (simp add: pos_imp_zdiv_nonneg_iff)
  then have "0 \<le> n div p * p" using p by simp
  then show ?thesis
    using c p by (auto simp: candidate_def Let_def split: if_splits)
qed

lemma shortest_rounds: "shortest n ps = n \<or> roundMagnitude (shortest n ps) = n"
  by (induction ps) (auto split: option.splits dest: candidate_rounds)

lemma shortest_nonneg: "0 \<le> n \<Longrightarrow> \<forall>p \<in> set ps. 0 < p \<Longrightarrow> 0 \<le> shortest n ps"
  by (induction ps) (auto split: option.splits dest: candidate_nonneg)

lemma powersOfTen_pos: "\<forall>p \<in> set (powersOfTen d). 0 < p"
  by (auto simp: powersOfTen_def)

lemma showMagnitude_chars:
  assumes "0 \<le> n"
  shows "\<forall>c \<in> set (showMagnitude n). numberChar c"
proof -
  have c: "0 \<le> shortest n (powersOfTen (length (showDigits n)))"
    by (rule shortest_nonneg [OF assms powersOfTen_pos])
  have "\<forall>ch \<in> set (showDigits (shortest n (powersOfTen (length (showDigits n))))). numberChar ch"
    using showDigits_chars [OF c] by blast
  then show ?thesis
    using exponentForm_chars showDigits_chars [OF assms]
    by (auto simp: showMagnitude_def Let_def)
qed

lemma showMagnitude_nonempty: "showMagnitude n \<noteq> []"
proof -
  have "exponentForm ds \<noteq> []" if "ds \<noteq> []" for ds
    using that by (simp add: exponentForm_def split: list.splits)
  then show ?thesis
    by (simp add: showMagnitude_def Let_def showDigits_nonempty)
qed

lemma showNumber_chars: "c \<in> set (showNumber x) \<Longrightarrow> numberChar c"
proof (cases x)
  case (Number i)
  then show "c \<in> set (showNumber x) \<Longrightarrow> numberChar c"
    using showMagnitude_chars [of i] showMagnitude_chars [of "- i"]
    by (auto simp: numberChar_def split: if_splits)
qed (auto simp: numberChar_def)

lemma showNumber_nonempty: "showNumber x \<noteq> []"
  by (cases x) (simp_all add: showMagnitude_nonempty)

lemma takeWhile_digits: "\<forall>c \<in> set ds. isDigit c \<Longrightarrow> takeWhile isDigit ds = ds"
  by (simp add: takeWhile_eq_all_conv)

lemma parseInt_digits:
  assumes "isDigit c" and "\<forall>x \<in> set cs. isDigit x"
  shows "parseInt (c # cs) = toDouble (digitsValue (c # cs))"
proof -
  have tw: "takeWhile isDigit cs = cs"
    using assms(2) by (rule takeWhile_digits)
  show ?thesis
    using isDigit_not_special [OF assms(1)] assms(1) by (simp add: parseInt_def tw)
qed

lemma parseInt_minus_digits:
  assumes "ds \<noteq> []" and "\<forall>x \<in> set ds. isDigit x"
  shows "parseInt (CHR ''-'' # ds) = toDouble (- digitsValue ds)"
proof -
  have tw: "takeWhile isDigit ds = ds"
    using assms(2) by (rule takeWhile_digits)
  have neg: "\<not> isWhiteSpace CHR ''-''"
    by (simp add: isWhiteSpace_def)
  show ?thesis
    using assms(1) neg by (simp add: parseInt_def tw)
qed

lemma parseInt_showDigits:
  assumes "0 \<le> c"
  shows "parseInt (showDigits c) = toDouble c"
    and "parseInt (CHR ''-'' # showDigits c) = toDouble (- c)"
proof -
  obtain x xs where xs: "showDigits c = x # xs"
    using showDigits_nonempty [of c] by (cases "showDigits c") auto
  have all: "\<forall>y \<in> set (x # xs). isDigit y"
    using showDigits_digits [OF assms] by (simp only: xs)
  have "parseInt (x # xs) = toDouble (digitsValue (x # xs))"
    using all by (intro parseInt_digits) simp_all
  then show "parseInt (showDigits c) = toDouble c"
    using digitsValue_showDigits [OF assms] by (simp only: xs)
  have "parseInt (CHR ''-'' # showDigits c) = toDouble (- digitsValue (showDigits c))"
    by (rule parseInt_minus_digits [OF showDigits_nonempty showDigits_digits [OF assms]])
  then show "parseInt (CHR ''-'' # showDigits c) = toDouble (- c)"
    using digitsValue_showDigits [OF assms] by simp
qed

lemma ten21_double: "roundMagnitude (10 ^ 21) = 10 ^ 21"
  by code_simp

lemma showMagnitude_plain:
  assumes rep: "roundMagnitude n = n" and n: "0 \<le> n" and lt: "n < 10 ^ 21"
  shows "\<exists>c. 0 \<le> c \<and> showMagnitude n = showDigits c \<and> roundMagnitude c = n"
proof (cases "n \<le> 2 ^ 53")
  case True
  then show ?thesis using rep n by (auto simp: showMagnitude_def)
next
  case False
  define c where "c = shortest n (powersOfTen (length (showDigits n)))"
  have c0: "0 \<le> c"
    unfolding c_def by (rule shortest_nonneg [OF n powersOfTen_pos])
  have r: "roundMagnitude c = n"
    using shortest_rounds [of n "powersOfTen (length (showDigits n))"] rep
    by (auto simp: c_def)
  have "c < 10 ^ 21"
  proof (rule ccontr)
    assume "\<not> c < 10 ^ 21"
    then have "10 ^ 21 \<le> c" by simp
    then have "10 ^ 21 \<le> roundMagnitude c" by (rule roundMagnitude_ge [OF ten21_double])
    then show False using r lt by simp
  qed
  then have "showMagnitude n = showDigits c"
    using False by (simp add: showMagnitude_def Let_def c_def)
  then show ?thesis using c0 r by blast
qed

lemma parseInt_showNumber:
  assumes "readsBack x"
  shows "parseInt (showNumber x) = x"
proof (cases x)
  case NaN
  then show ?thesis by (simp add: parseInt_def isWhiteSpace_def isDigit_def)
next
  case Infinity
  then show ?thesis using assms by (simp add: readsBack_def)
next
  case NegInfinity
  then show ?thesis using assms by (simp add: readsBack_def)
next
  case (Number n)
  then have d: "toDouble n = Number n" and lt: "\<bar>n\<bar> < 10 ^ 21"
    using assms by (simp_all add: readsBack_def)
  note rb = d [unfolded toDouble_Number_iff]
  have rep: "roundMagnitude \<bar>n\<bar> = \<bar>n\<bar>" using rb by (rule conjunct1)
  have bl: "bitLength \<bar>n\<bar> \<le> 1024" using rb by auto
  obtain c where c0: "0 \<le> c" and sh: "showMagnitude \<bar>n\<bar> = showDigits c"
    and rc: "roundMagnitude c = \<bar>n\<bar>"
    using showMagnitude_plain [OF rep _ lt] by auto
  show ?thesis
  proof (cases "n < 0")
    case True
    then have "0 < c" using rc c0 by (cases "c = 0") (simp_all add: roundMagnitude_small)
    then have "toDouble (- c) = Number n"
      using True rc bl by (simp add: toDouble_def Let_def)
    then show ?thesis
      using True sh parseInt_showDigits(2) [OF c0] Number by simp
  next
    case False
    then have "toDouble c = Number n"
      using rc bl c0 by (simp add: toDouble_def Let_def)
    then show ?thesis
      using False sh parseInt_showDigits(1) [OF c0] Number by simp
  qed
qed

lemma parseOptionalInt_showNumber:
  "readsBack x \<Longrightarrow> parseOptionalInt (Some (showNumber x)) = Some x"
  by (simp add: parseOptionalInt_def showNumber_nonempty parseInt_showNumber)

lemma parseOptionalInt_None: "parseOptionalInt None = None"
  by (simp add: parseOptionalInt_def)

subsection \<open>The query of a next link\<close>

lemma splitOn_none: "c \<notin> set s \<Longrightarrow> splitOn c s = [s]"
  by (induction s) auto

lemma splitOn_append: "c \<notin> set a \<Longrightarrow> splitOn c (a @ c # b) = a # splitOn c b"
  by (induction a) auto

lemma queryString_append:
  "CHR ''?'' \<notin> set base \<Longrightarrow> queryString (base @ CHR ''?'' # q) = q"
  by (induction base) (auto simp: queryString_def)

lemma keyValue_split: "CHR ''='' \<notin> set k \<Longrightarrow> keyValue (k @ CHR ''='' # v) = (k, v)"
  by (induction k) (auto simp: keyValue_def)

lemma nextLink_Some:
  "nextLink (Some p) base =
     Some (base @ CHR ''?'' # (''page'' @ CHR ''='' # showNumber (num p))
             @ (case shard p of None \<Rightarrow> [] | Some s \<Rightarrow> CHR ''&'' # ''shard'' @ CHR ''='' # showNumber s))"
  by (simp add: nextLink_def PAGE_QUERY_PARAM_def SHARD_QUERY_PARAM_def split: option.splits)

lemma requestQuery_nextLink:
  assumes base: "CHR ''?'' \<notin> set base"
    and url: "nextLink (Some p) base = Some url"
  shows "requestQuery url ''page'' = Some (showNumber (num p))"
    and "requestQuery url ''shard'' = map_option showNumber (shard p)"
proof -
  let ?a = "''page'' @ CHR ''='' # showNumber (num p)"
  have amp: "CHR ''&'' \<notin> set ?a"
    using showNumber_chars [of "CHR ''&''" "num p"] by (auto simp: numberChar_def)
  have kva: "keyValue ?a = (''page'', showNumber (num p))"
    by (rule keyValue_split) simp
  show "requestQuery url ''page'' = Some (showNumber (num p))"
    and "requestQuery url ''shard'' = map_option showNumber (shard p)"
  proof (atomize (full), cases "shard p")
    case None
    have u: "url = base @ CHR ''?'' # ?a"
      using url None by (simp add: nextLink_Some)
    have q: "queryString url = ?a"
      unfolding u by (rule queryString_append [OF base])
    have "splitOn CHR ''&'' ?a = [?a]"
      by (rule splitOn_none [OF amp])
    then have "map keyValue (splitOn CHR ''&'' (queryString url)) = [(''page'', showNumber (num p))]"
      by (simp only: q kva list.map)
    then show "requestQuery url ''page'' = Some (showNumber (num p))
        \<and> requestQuery url ''shard'' = map_option showNumber (shard p)"
      using None by (simp add: requestQuery_def)
  next
    case (Some s)
    let ?b = "''shard'' @ CHR ''='' # showNumber s"
    have u: "url = base @ CHR ''?'' # (?a @ CHR ''&'' # ?b)"
      using url Some by (simp add: nextLink_Some)
    have q: "queryString url = ?a @ CHR ''&'' # ?b"
      unfolding u by (rule queryString_append [OF base])
    have ampb: "CHR ''&'' \<notin> set ?b"
      using showNumber_chars [of "CHR ''&''" s] by (auto simp: numberChar_def)
    have sp: "splitOn CHR ''&'' (?a @ CHR ''&'' # ?b) = [?a, ?b]"
      using splitOn_append [OF amp, of ?b] splitOn_none [OF ampb] by (simp only:)
    have kvb: "keyValue ?b = (''shard'', showNumber s)"
      by (rule keyValue_split) simp
    have "map keyValue (splitOn CHR ''&'' (queryString url))
        = [(''page'', showNumber (num p)), (''shard'', showNumber s)]"
      by (simp only: q sp kva kvb list.map)
    then show "requestQuery url ''page'' = Some (showNumber (num p))
        \<and> requestQuery url ''shard'' = map_option showNumber (shard p)"
      using Some by (simp add: requestQuery_def)
  qed
qed

lemma PaginationPage_nextLink:
  assumes "CHR ''?'' \<notin> set base" and "nextLink (Some p) base = Some url"
    and "readsBack (num p)" and "case shard p of None \<Rightarrow> True | Some s \<Rightarrow> readsBack s"
  shows "PaginationPage url = getPage (Some (num p)) (shard p)"
  using requestQuery_nextLink [OF assms(1,2)] assms(3,4)
  by (cases "shard p")
     (simp_all add: PaginationPage_def PAGE_QUERY_PARAM_def SHARD_QUERY_PARAM_def
        parseOptionalInt_showNumber parseOptionalInt_None)

lemma getNextPage_shard_absent:
  assumes "getNextPage currentPage collection MAX_SHARDS = Some nextPage"
  shows "shard nextPage = None \<longleftrightarrow>
           shard currentPage = None
           \<and> 0 < countOnPage (getPage (Some (jsAdd (num currentPage) (Number 1))) (shard currentPage))
                   collection"
  using assms
  by (auto simp: getNextPage_def Let_def getPage_def split: if_splits)

subsection \<open>The claims\<close>




text \<open>
  C2. Scenario C: shard 0 holds 5 records, shard 1 none, shard 2 holds 5, the page size
  is 10 and \<open>MAX_SHARDS = 2\<close>. From the page \<open>{num: 1, shard: 0}\<close>, \<open>getNextPage\<close> returns
  none, although the first page of shard 2 has 5 records: only one shard ahead is
  probed.
\<close>

theorem scenarioC_next_none:
  "getNextPage \<lparr>num = Number 1, size' = Number 10, shard = Some (Number 0)\<rparr>
       (tableCollection scenarioC) 2 = None
   \<and> length (findMany scenarioC
        (queryParameters \<lparr>num = Number 1, size' = Number 10, shard = Some (Number 2)\<rparr>)) = 5"
  by code_simp

text \<open>
  C3 (as amended). For every request whose raw shard is absent, the translated shard
  filter is \<open>DEFAULT_SHARD = 0\<close>. When the request has a next page, its link (on a base
  URL without query) omits the \<open>shard\<close> parameter if and only if the shard of the next
  page is absent, and that is the case if and only if the shard of the request was
  absent and the next page is the following page of the same shard (its count is
  positive); a link to the first page of the next shard always carries the parameter.
\<close>

theorem shard_default_and_link:
  "where_shard (queryParameters (getPage pageNum None)) = Number DEFAULT_SHARD
   \<and> DEFAULT_SHARD = 0
   \<and> (CHR ''?'' \<notin> set base
        \<and> getNextPage (getPage pageNum shardNum) collection MAX_SHARDS = Some nextPage
        \<and> nextLink (Some nextPage) base = Some url
      \<longrightarrow> (requestQuery url SHARD_QUERY_PARAM = None \<longleftrightarrow> shard nextPage = None)
          \<and> (shard nextPage = None \<longleftrightarrow>
               shardNum = None
               \<and> 0 < countOnPage
                       (getPage (Some (jsAdd (num (getPage pageNum shardNum)) (Number 1))) shardNum)
                       collection))"
proof (intro conjI impI)
  show "where_shard (queryParameters (getPage pageNum None)) = Number DEFAULT_SHARD"
    by (simp add: queryParameters_def getPage_def)
  show "DEFAULT_SHARD = 0"
    by (simp add: DEFAULT_SHARD_def)
next
  assume h: "CHR ''?'' \<notin> set base
        \<and> getNextPage (getPage pageNum shardNum) collection MAX_SHARDS = Some nextPage
        \<and> nextLink (Some nextPage) base = Some url"
  then have b: "CHR ''?'' \<notin> set base" and l: "nextLink (Some nextPage) base = Some url"
    by simp_all
  have "requestQuery url ''shard'' = map_option showNumber (shard nextPage)"
    by (rule requestQuery_nextLink(2) [OF b l])
  then show "requestQuery url SHARD_QUERY_PARAM = None \<longleftrightarrow> shard nextPage = None"
    by (simp add: SHARD_QUERY_PARAM_def)
next
  assume h: "CHR ''?'' \<notin> set base
        \<and> getNextPage (getPage pageNum shardNum) collection MAX_SHARDS = Some nextPage
        \<and> nextLink (Some nextPage) base = Some url"
  then have "getNextPage (getPage pageNum shardNum) collection MAX_SHARDS = Some nextPage"
    by simp
  from getNextPage_shard_absent [OF this]
  show "shard nextPage = None \<longleftrightarrow>
               shardNum = None
               \<and> 0 < countOnPage
                       (getPage (Some (jsAdd (num (getPage pageNum shardNum)) (Number 1))) shardNum)
                       collection"
    by (simp add: getPage_def)
qed

lemma scenarioA_eval:
  "getNextPage (getPage None None) (tableCollection scenarioA) 1
     = Some \<lparr>num = Number 2, size' = Number 10, shard = None\<rparr>"
  by code_simp

lemma scenarioA_link_eval:
  "nextLink (Some \<lparr>num = Number 2, size' = Number 10, shard = None\<rparr>) shiftsUrl
     = Some ''http://localhost:3000/shifts?page=2''"
  by code_simp

theorem shard_default_and_link_witness:
  "getNextPage (getPage None None) (tableCollection scenarioA) 1
     = Some \<lparr>num = Number 2, size' = Number 10, shard = None\<rparr>
   \<and> nextLink (Some \<lparr>num = Number 2, size' = Number 10, shard = None\<rparr>) shiftsUrl
     = Some ''http://localhost:3000/shifts?page=2''
   \<and> requestQuery ''http://localhost:3000/shifts?page=2'' SHARD_QUERY_PARAM = None
   \<and> where_shard (queryParameters (getPage None None)) = Number 0"
  using shard_default_and_link
    [of None shiftsUrl None "tableCollection scenarioA" 1
        "\<lparr>num = Number 2, size' = Number 10, shard = None\<rparr>"
        "''http://localhost:3000/shifts?page=2''"]
    shiftsUrl_no_query scenarioA_eval scenarioA_link_eval
  by simp

text \<open>
  C3 as stated fails. In scenario B with \<open>MAX_SHARDS = 1\<close>, a request without \<open>page\<close> and
  without \<open>shard\<close> is on the only page of shard 0; the next page is the first page of
  shard 1, and its link carries \<open>shard=1\<close> although the request had no shard.
\<close>

theorem shard_link_counterexample:
  "nextLink (getNextPage (getPage None None) (tableCollection scenarioB) 1) shiftsUrl
     = Some ''http://localhost:3000/shifts?page=1&shard=1''
   \<and> requestQuery ''http://localhost:3000/shifts?page=1&shard=1'' SHARD_QUERY_PARAM = Some ''1''"
  by code_simp

text \<open>
  C4 (as amended). Round trip: for every page that \<open>getPage\<close> builds (so every page
  that \<open>getNextPage\<close> returns) whose number is a finite double below \<open>10^21\<close> in magnitude
  and whose shard is absent, \<open>NaN\<close> or such a double, and every base URL without query,
  reading the \<open>page\<close> and \<open>shard\<close> parameters of the link that \<open>nextLink\<close> renders with
  \<open>parseOptionalInt\<close> and resolving them with \<open>getPage\<close> gives the same page: the same
  number, the same size and the same shard, an absent shard included.
\<close>

theorem nextLink_roundtrip:
  assumes "p = getPage pageNum shardNum"
    and "readsBack (num p)" and "case shard p of None \<Rightarrow> True | Some s \<Rightarrow> readsBack s"
    and "CHR ''?'' \<notin> set base" and "nextLink (Some p) base = Some url"
  shows "PaginationPage url = p"
  using PaginationPage_nextLink [OF assms(4,5,2,3)] getPage_again [of pageNum shardNum]
  by (simp add: assms(1))

theorem nextLink_roundtrip_witness:
  "getNextPage \<lparr>num = Number 1, size' = Number 10, shard = Some (Number 0)\<rparr>
       (tableCollection scenarioB) 1
     = Some (getPage (Some (Number 1)) (Some (Number 1)))
   \<and> nextLink (Some (getPage (Some (Number 1)) (Some (Number 1)))) shiftsUrl
     = Some ''http://localhost:3000/shifts?page=1&shard=1''
   \<and> PaginationPage ''http://localhost:3000/shifts?page=1&shard=1''
     = getPage (Some (Number 1)) (Some (Number 1))"
proof -
  have e: "getNextPage \<lparr>num = Number 1, size' = Number 10, shard = Some (Number 0)\<rparr>
       (tableCollection scenarioB) 1
     = Some (getPage (Some (Number 1)) (Some (Number 1)))"
    by code_simp
  have l: "nextLink (Some (getPage (Some (Number 1)) (Some (Number 1)))) shiftsUrl
     = Some ''http://localhost:3000/shifts?page=1&shard=1''"
    by code_simp
  have r: "readsBack (num (getPage (Some (Number 1)) (Some (Number 1))))"
    by code_simp
  have s: "case shard (getPage (Some (Number 1)) (Some (Number 1))) of
             None \<Rightarrow> True | Some s \<Rightarrow> readsBack s"
    by code_simp
  show ?thesis
    using nextLink_roundtrip [OF refl r s shiftsUrl_no_query l] e l by simp
qed

text \<open>
  C4 as stated fails. A request \<open>?page=1000000000000000000000\<close> is on page \<open>10^21\<close>, a
  double; with records at that offset the next page is page \<open>10^21\<close> again (the sum with
  1 rounds back), its link is written \<open>?page=1e+21\<close>, and \<open>parseInt\<close> reads 1 from it:
  the link resolves to page 1.
\<close>

theorem nextLink_roundtrip_counterexample:
  "getPage (parseOptionalInt (Some ''1000000000000000000000'')) None
     = \<lparr>num = Number 1000000000000000000000, size' = Number 10, shard = None\<rparr>
   \<and> getNextPage \<lparr>num = Number 1000000000000000000000, size' = Number 10, shard = None\<rparr>
       everyPageHasRecords 1
     = Some \<lparr>num = Number 1000000000000000000000, size' = Number 10, shard = None\<rparr>
   \<and> nextLink (Some \<lparr>num = Number 1000000000000000000000, size' = Number 10, shard = None\<rparr>)
       shiftsUrl
     = Some ''http://localhost:3000/shifts?page=1e+21''
   \<and> PaginationPage ''http://localhost:3000/shifts?page=1e+21''
     = \<lparr>num = Number 1, size' = Number 10, shard = None\<rparr>"
  by code_simp

text \<open>
  C5. Scenario B: shard 0 holds 5 records and shard 1 holds 5, the page size is 10 and
  \<open>MAX_SHARDS = 1\<close>. From the page \<open>{num: 1, shard: 0}\<close>, \<open>getNextPage\<close> returns the page
  \<open>{num: 1, shard: 1}\<close>: the first page of the next shard.
\<close>

theorem scenarioB_next_shard:
  "getNextPage \<lparr>num = Number 1, size' = Number 10, shard = Some (Number 0)\<rparr>
       (tableCollection scenarioB) 1
     = Some \<lparr>num = Number 1, size' = Number 10, shard = Some (Number 1)\<rparr>"
  by code_simp




text \<open>
  C7. For every request with an explicit shard above \<open>MAX_SHARDS\<close>, on a stored
  collection with no record in a shard above \<open>MAX_SHARDS\<close>, the response has no data and
  no next link (\<open>getNextPage\<close> returns none); the shard filter of the query is the shard
  of the request, unclamped, and nothing fails.
\<close>

theorem shard_beyond_max_empty:
  assumes "\<forall>r \<in> set rows. fst r \<le> MAX_SHARDS"
    and "isDouble s" and "jsGt s (Number MAX_SHARDS)"
  shows "data (findAllPaginated (getPage pageNum (Some s)) rows MAX_SHARDS base) = []
       \<and> links_next (findAllPaginated (getPage pageNum (Some s)) rows MAX_SHARDS base) = None
       \<and> getNextPage (getPage pageNum (Some s)) (tableCollection rows) MAX_SHARDS = None
       \<and> where_shard (queryParameters (getPage pageNum (Some s))) = s"
proof -
  have empty: "findMany rows q = []" if "where_shard q = s" for q
    using findMany_foreign_shard [OF assms(1), of q] assms(3) that by simp
  have beyond: "jsGt (jsAdd s (Number 1)) (Number MAX_SHARDS)"
  proof (cases s)
    case (Number k)
    then have d: "toDouble k = Number k" and gt: "MAX_SHARDS < k"
      using assms(2,3) by (simp_all add: isDouble_def)
    from jsAdd_one_mono [OF d, of k] show ?thesis
      using gt Number by auto
  qed (use assms(3) in simp_all)
  have next_none:
    "getNextPage (getPage pageNum (Some s)) (tableCollection rows) MAX_SHARDS = None"
    using beyond
    by (simp add: getNextPage_def Let_def countOnPage_def tableCollection_def
        queryParameters_def getPage_def empty)
  have "findMany rows (queryParameters (getPage pageNum (Some s))) = []"
    by (rule empty) (simp add: queryParameters_def getPage_def)
  then show ?thesis
    using next_none
    by (simp add: findAllPaginated_def nextLink_def queryParameters_def getPage_def)
qed

theorem shard_beyond_max_empty_witness:
  "data (findAllPaginated (getPage None (Some (Number 5))) scenarioB 1 shiftsUrl) = []
   \<and> links_next (findAllPaginated (getPage None (Some (Number 5))) scenarioB 1 shiftsUrl) = None
   \<and> isDouble (Number 5) \<and> jsGt (Number 5) (Number 1)"
proof -
  have d: "isDouble (Number 5)" by code_simp
  have g: "jsGt (Number 5) (Number 1)" by simp
  show ?thesis
    using shard_beyond_max_empty [OF scenarioB_shards d g, of None shiftsUrl] d g by simp
qed

text \<open>
  C8 (as amended). For all optional raw inputs, \<open>getPage\<close> builds a page whose number is
  the raw page number when that is present and truthy (any number other than 0 and
  \<open>NaN\<close>), and 1 when it is absent, \<open>NaN\<close> or 0; whose size is \<open>PAGE_SIZE\<close>; and whose shard
  is the raw shard unchanged, absent included. No input is rejected: the function is
  total.
\<close>

theorem getPage_spec:
  "(pageNum = None \<or> pageNum = Some NaN \<or> pageNum = Some (Number 0)
      \<longrightarrow> num (getPage pageNum shardNum) = Number 1)
   \<and> (n \<noteq> 0 \<longrightarrow> num (getPage (Some (Number n)) shardNum) = Number n)
   \<and> num (getPage (Some Infinity) shardNum) = Infinity
   \<and> num (getPage (Some NegInfinity) shardNum) = NegInfinity
   \<and> size' (getPage pageNum shardNum) = Number PAGE_SIZE
   \<and> shard (getPage pageNum shardNum) = shardNum"
  by (auto simp: getPage_def FIRST_PAGE_def truthy_def)

theorem getPage_spec_witness:
  "num (getPage None (Some (Number 3))) = Number 1
   \<and> num (getPage (Some (Number 7)) (Some (Number 3))) = Number 7
   \<and> size' (getPage None (Some (Number 3))) = Number PAGE_SIZE
   \<and> shard (getPage None (Some (Number 3))) = Some (Number 3)"
  using getPage_spec [of None "Some (Number 3)" 7] by simp

text \<open>
  C8 as stated fails: the raw page number 0 is present, and the number of the page is 1.
\<close>

theorem getPage_zero_counterexample:
  "num (getPage (Some (Number 0)) None) = Number 1
   \<and> num (getPage (Some (Number 0)) None) \<noteq> Number 0"
  by (simp add: getPage_def FIRST_PAGE_def truthy_def)

text \<open>
  C9 (as amended). For every current page whose number is at least 1 and whose shard,
  when present, is in \<open>[0, MAX_SHARDS]\<close>, every page that \<open>getNextPage\<close> returns is well
  formed: its number is at least 1, its size is \<open>PAGE_SIZE\<close>, and its shard, when
  present, is in \<open>[0, MAX_SHARDS]\<close>. Its number is the sum of doubles \<open>number + 1\<close> or
  exactly 1; the sum is the integer \<open>number + 1\<close> whenever the current number is below
  \<open>2^53\<close>.
\<close>

theorem getNextPage_well_formed:
  assumes "atLeastOne (num currentPage)" and "shardInRange MAX_SHARDS (shard currentPage)"
    and "getNextPage currentPage collection MAX_SHARDS = Some nextPage"
  shows "atLeastOne (num nextPage)
       \<and> (num nextPage = jsAdd (num currentPage) (Number 1) \<or> num nextPage = Number 1)
       \<and> (\<forall>n. num currentPage = Number n \<and> n < 2 ^ 53
            \<longrightarrow> num nextPage = Number (n + 1) \<or> num nextPage = Number 1)
       \<and> size' nextPage = Number PAGE_SIZE
       \<and> shardInRange MAX_SHARDS (shard nextPage)"
proof -
  let ?next = "jsAdd (num currentPage) (Number 1)"
  have one: "atLeastOne ?next"
  proof (cases "num currentPage")
    case (Number n)
    then have "1 \<le> n + 1" using assms(1) by (simp add: atLeastOne_def)
    from jsAdd_one_mono [OF toDouble_one this] show ?thesis
      using Number by (auto simp: atLeastOne_def)
  qed (use assms(1) in \<open>simp_all add: atLeastOne_def\<close>)
  then have t: "truthy ?next"
    by (auto simp: atLeastOne_def truthy_def split: number.splits)
  have exact: "?next = Number (n + 1)" if "num currentPage = Number n" and "n < 2 ^ 53" for n
  proof -
    have "1 \<le> n" using assms(1) that(1) by (simp add: atLeastOne_def)
    then have "\<bar>n + 1\<bar> \<le> 2 ^ 53" using that(2) by simp
    then show ?thesis using that(1) by (simp add: toDouble_exact)
  qed
  show ?thesis
  proof (cases "0 < countOnPage (getPage (Some ?next) (shard currentPage)) collection")
    case True
    then have "nextPage = getPage (Some ?next) (shard currentPage)"
      using assms(3) by (simp add: getNextPage_def Let_def)
    then show ?thesis
      using assms(2) one t exact by (auto simp: getPage_def)
  next
    case False
    let ?shard = "jsAdd (case shard currentPage of Some s \<Rightarrow> s | None \<Rightarrow> Number DEFAULT_SHARD)
                        (Number 1)"
    from False assms(3) have g: "\<not> jsGt ?shard (Number MAX_SHARDS)"
      and np: "nextPage = getPage (Some (Number FIRST_PAGE)) (Some ?shard)"
      by (auto simp: getNextPage_def Let_def split: if_splits)
    have "shardInRange MAX_SHARDS (Some ?shard)"
    proof (cases "shard currentPage")
      case None
      then show ?thesis
        using g by (simp add: DEFAULT_SHARD_def toDouble_one shardInRange_def)
    next
      case (Some x)
      then obtain s where x: "x = Number s" and s: "0 \<le> s"
        using assms(2) by (cases x) (simp_all add: shardInRange_def)
      then have "0 \<le> s + 1" by simp
      from jsAdd_one_mono [OF toDouble_zero this] show ?thesis
        using g Some x by (auto simp: shardInRange_def)
    qed
    then show ?thesis
      using np by (simp add: getPage_def FIRST_PAGE_def truthy_def atLeastOne_def)
  qed
qed

theorem getNextPage_well_formed_witness:
  "getNextPage \<lparr>num = Number 1, size' = Number 10, shard = Some (Number 0)\<rparr>
       (tableCollection scenarioB) 1
     = Some \<lparr>num = Number 1, size' = Number 10, shard = Some (Number 1)\<rparr>
   \<and> atLeastOne (Number 1)
   \<and> shardInRange 1 (Some (Number 0))
   \<and> shardInRange 1 (shard \<lparr>num = Number 1, size' = Number 10, shard = Some (Number 1)\<rparr>)
   \<and> size' \<lparr>num = Number 1, size' = Number 10, shard = Some (Number 1)\<rparr> = Number PAGE_SIZE"
proof -
  have e: "getNextPage \<lparr>num = Number 1, size' = Number 10, shard = Some (Number 0)\<rparr>
       (tableCollection scenarioB) 1
     = Some \<lparr>num = Number 1, size' = Number 10, shard = Some (Number 1)\<rparr>"
    by code_simp
  have r: "shardInRange 1 (shard \<lparr>num = Number 1, size' = Number 10, shard = Some (Number 0)\<rparr>)"
    by (simp add: shardInRange_def)
  have n: "atLeastOne (num \<lparr>num = Number 1, size' = Number 10, shard = Some (Number 0)\<rparr>)"
    by (simp add: atLeastOne_def)
  show ?thesis
    using getNextPage_well_formed [OF n r e] e r n by simp
qed

text \<open>
  C9 as stated fails. From page \<open>2^53\<close> (a request \<open>?page=9007199254740992\<close>, number at
  least 1, shard absent) with records at that offset, the page that \<open>getNextPage\<close>
  returns has the number \<open>2^53\<close>: neither the current number plus one nor 1.
\<close>

theorem getNextPage_well_formed_counterexample:
  "atLeastOne (num (getPage (Some (Number 9007199254740992)) None))
   \<and> shardInRange 1 (shard (getPage (Some (Number 9007199254740992)) None))
   \<and> getNextPage (getPage (Some (Number 9007199254740992)) None) everyPageHasRecords 1
     = Some \<lparr>num = Number 9007199254740992, size' = Number 10, shard = None\<rparr>
   \<and> Number 9007199254740992 \<noteq> Number (9007199254740992 + 1)
   \<and> Number 9007199254740992 \<noteq> Number 1"
  by code_simp

text \<open>
  C10. For every optional shard, \<open>getPage\<close> applied to the raw page number 0 equals
  \<open>getPage\<close> applied to an absent page number: the number of the page is 1, and its
  offset is 0.
\<close>

theorem getPage_zero_is_absent:
  "getPage (Some (Number 0)) shardNum = getPage None shardNum
   \<and> num (getPage (Some (Number 0)) shardNum) = Number 1
   \<and> skip (queryParameters (getPage (Some (Number 0)) shardNum)) = Number 0"
  using jsSub_one_exact [of 1] jsMul_exact [of 0 10]
  by (simp add: getPage_def queryParameters_def FIRST_PAGE_def PAGE_SIZE_def truthy_def)

end
